theory Spec2Isabelle
  imports Main "HOL-Library.Sublist" "HOL-Library.Word"
begin

unbundle bit_operations_syntax

section \<open>Python strings\<close>

text \<open>
  A Python \<open>str\<close> is a sequence of code points and \<open>len\<close> counts code points. The
  model is \<^typ>\<open>string\<close>, read as a sequence of code points, with every \<^typ>\<open>char\<close> a
  code point in the range U+0000 .. U+00FF: on that range \<open>str.isspace\<close>,
  \<open>str.lower\<close> and the UTF-8 encoding below are exactly Python's. Texts with code
  points beyond U+00FF are outside the model.
\<close>

definition nl :: char where
  "nl = CHR 0x0A"

text \<open>\<open>str.isspace\<close> on a code point below U+0100.\<close>

definition isspace :: "char \<Rightarrow> bool" where
  "isspace c = (of_char c \<in> {9, 10, 11, 12, 13, 28, 29, 30, 31, 32, 133, 160 :: nat})"

text \<open>\<open>s.strip()\<close>: leading and trailing whitespace removed.\<close>

definition lstrip :: "string \<Rightarrow> string" where
  "lstrip s = dropWhile isspace s"

definition rstrip :: "string \<Rightarrow> string" where
  "rstrip s = rev (dropWhile isspace (rev s))"

definition strip :: "string \<Rightarrow> string" where
  "strip s = rstrip (lstrip s)"

text \<open>\<open>s.lower()\<close> on code points below U+0100: A-Z, and U+00C0 .. U+00DE but the
  multiplication sign U+00D7, move up by 32; all others stay.\<close>

definition lower_char :: "char \<Rightarrow> char" where
  "lower_char c =
     (let n = (of_char c :: nat)
      in if (65 \<le> n \<and> n \<le> 90) \<or> (192 \<le> n \<and> n \<le> 222 \<and> n \<noteq> 215)
         then char_of (n + 32) else c)"

definition lower :: "string \<Rightarrow> string" where
  "lower s = map lower_char s"

text \<open>\<open>sub in s\<close>: \<open>sub\<close> occurs in \<open>s\<close> as a contiguous substring.\<close>

fun contains :: "string \<Rightarrow> string \<Rightarrow> bool" where
  "contains sub [] = (sub = [])"
| "contains sub (c # cs) = (prefix sub (c # cs) \<or> contains sub cs)"

text \<open>\<open>s.split(d)\<close> for a one-character separator: never an empty list.\<close>

fun split_on :: "char \<Rightarrow> string \<Rightarrow> string list" where
  "split_on d [] = [[]]"
| "split_on d (c # cs) =
     (if c = d then [] # split_on d cs
      else (let r = split_on d cs in (c # hd r) # tl r))"

text \<open>\<open>sep.join(xs)\<close>.\<close>

fun join :: "string \<Rightarrow> string list \<Rightarrow> string" where
  "join sep [] = []"
| "join sep [x] = x"
| "join sep (x # y # ys) = x @ sep @ join sep (y # ys)"

text \<open>\<open>s[i:]\<close> for an integer \<open>i\<close>: a negative start counts from the end, and both
  ends are clamped.\<close>

definition slice_from :: "int \<Rightarrow> 'a list \<Rightarrow> 'a list" where
  "slice_from i xs =
     (if i < 0 then drop (nat (int (length xs) + i)) xs else drop (nat i) xs)"

text \<open>\<open>str(n)\<close> for an integer: decimal digits, with a minus sign when negative.\<close>

definition digit_char :: "nat \<Rightarrow> char" where
  "digit_char d = ''0123456789'' ! d"

function str_nat :: "nat \<Rightarrow> string" where
  "str_nat n = (if n < 10 then [digit_char n] else str_nat (n div 10) @ [digit_char (n mod 10)])"
  by pat_completeness auto
termination
  by (relation "measure id") auto

definition str_int :: "int \<Rightarrow> string" where
  "str_int i = (if i < 0 then CHR ''-'' # str_nat (nat (- i)) else str_nat (nat i))"

text \<open>\<open>s.encode("utf-8")\<close> on code points below U+0100: one byte below U+0080, two
  bytes from there on. No such code point is a surrogate, so \<open>errors="ignore"\<close>
  drops nothing.\<close>

definition utf8_char :: "char \<Rightarrow> 8 word list" where
  "utf8_char c =
     (let n = (of_char c :: nat)
      in if n < 128 then [of_nat n] else [of_nat (192 + n div 64), of_nat (128 + n mod 64)])"

definition utf8 :: "string \<Rightarrow> 8 word list" where
  "utf8 s = concat (map utf8_char s)"

section \<open>SHA-256 (hashlib)\<close>

text \<open>
  \<open>hashlib.sha256(key).hexdigest()\<close> is library code; it is modelled from FIPS 180-4:
  the message is padded to a multiple of 64 bytes, each block is expanded to a
  schedule of 64 words and compressed into the eight-word state.
\<close>

type_synonym sha_state =
  "32 word \<times> 32 word \<times> 32 word \<times> 32 word \<times> 32 word \<times> 32 word \<times> 32 word \<times> 32 word"

definition rotr :: "nat \<Rightarrow> 32 word \<Rightarrow> 32 word" where
  "rotr n x = (drop_bit n x) OR (push_bit (32 - n) x)"

definition Ch :: "32 word \<Rightarrow> 32 word \<Rightarrow> 32 word \<Rightarrow> 32 word" where
  "Ch x y z = (x AND y) XOR (NOT x AND z)"

definition Maj :: "32 word \<Rightarrow> 32 word \<Rightarrow> 32 word \<Rightarrow> 32 word" where
  "Maj x y z = (x AND y) XOR (x AND z) XOR (y AND z)"

definition Sigma0 :: "32 word \<Rightarrow> 32 word" where
  "Sigma0 x = rotr 2 x XOR rotr 13 x XOR rotr 22 x"

definition Sigma1 :: "32 word \<Rightarrow> 32 word" where
  "Sigma1 x = rotr 6 x XOR rotr 11 x XOR rotr 25 x"

definition sigma0 :: "32 word \<Rightarrow> 32 word" where
  "sigma0 x = rotr 7 x XOR rotr 18 x XOR drop_bit 3 x"

definition sigma1 :: "32 word \<Rightarrow> 32 word" where
  "sigma1 x = rotr 17 x XOR rotr 19 x XOR drop_bit 10 x"

text \<open>The round constants and the initial state of FIPS 180-4 (sections 4.2.2 and
  5.3.3), written in decimal.\<close>

definition sha_K :: "32 word list" where
  "sha_K =
    [1116352408, 1899447441, 3049323471, 3921009573, 961987163, 1508970993, 2453635748, 2870763221,
     3624381080, 310598401, 607225278, 1426881987, 1925078388, 2162078206, 2614888103, 3248222580,
     3835390401, 4022224774, 264347078, 604807628, 770255983, 1249150122, 1555081692, 1996064986,
     2554220882, 2821834349, 2952996808, 3210313671, 3336571891, 3584528711, 113926993, 338241895,
     666307205, 773529912, 1294757372, 1396182291, 1695183700, 1986661051, 2177026350, 2456956037,
     2730485921, 2820302411, 3259730800, 3345764771, 3516065817, 3600352804, 4094571909, 275423344,
     430227734, 506948616, 659060556, 883997877, 958139571, 1322822218, 1537002063, 1747873779,
     1955562222, 2024104815, 2227730452, 2361852424, 2428436474, 2756734187, 3204031479, 3329325298]"

definition sha_H0 :: sha_state where
  "sha_H0 =
    (1779033703, 3144134277, 1013904242, 2773480762, 1359893119, 2600822924, 528734635, 1541459225)"

text \<open>The message, a byte 0x80, zero bytes up to 56 modulo 64, and the bit length
  as a 64-bit big-endian number.\<close>

definition len_bytes :: "64 word \<Rightarrow> 8 word list" where
  "len_bytes l = map (\<lambda>k. ucast (drop_bit k l)) [56, 48, 40, 32, 24, 16, 8, 0]"

definition sha_pad :: "8 word list \<Rightarrow> 8 word list" where
  "sha_pad msg =
     msg @ [0x80] @ replicate ((64 - (length msg + 9) mod 64) mod 64) 0
         @ len_bytes (of_nat (8 * length msg))"

definition be_word :: "8 word list \<Rightarrow> 32 word" where
  "be_word bs = foldl (\<lambda>acc b. push_bit 8 acc OR ucast b) 0 bs"

fun words_of :: "nat \<Rightarrow> 8 word list \<Rightarrow> 32 word list" where
  "words_of 0 bs = []"
| "words_of (Suc k) bs = be_word (take 4 bs) # words_of k (drop 4 bs)"

text \<open>The message schedule: sixteen words of the block, then 48 derived words.\<close>

fun schedule :: "nat \<Rightarrow> 32 word list \<Rightarrow> 32 word list" where
  "schedule 0 ws = ws"
| "schedule (Suc k) ws =
     (let t = length ws
      in schedule k (ws @ [sigma1 (ws ! (t - 2)) + ws ! (t - 7) + sigma0 (ws ! (t - 15)) + ws ! (t - 16)]))"

definition sha_round :: "sha_state \<Rightarrow> 32 word \<times> 32 word \<Rightarrow> sha_state" where
  "sha_round s kw =
     (case s of (a, b, c, d, e, f, g, h) \<Rightarrow>
        (let t1 = h + Sigma1 e + Ch e f g + fst kw + snd kw;
             t2 = Sigma0 a + Maj a b c
         in (t1 + t2, a, b, c, d + t1, e, f, g)))"

definition sha_compress :: "sha_state \<Rightarrow> 8 word list \<Rightarrow> sha_state" where
  "sha_compress s block =
     (case s of (a, b, c, d, e, f, g, h) \<Rightarrow>
        (case foldl sha_round s (zip sha_K (schedule 48 (words_of 16 block))) of
           (a', b', c', d', e', f', g', h') \<Rightarrow>
             (a + a', b + b', c + c', d + d', e + e', f + f', g + g', h + h')))"

fun sha_blocks :: "nat \<Rightarrow> sha_state \<Rightarrow> 8 word list \<Rightarrow> sha_state" where
  "sha_blocks 0 s bs = s"
| "sha_blocks (Suc k) s bs = sha_blocks k (sha_compress s (take 64 bs)) (drop 64 bs)"

definition word_bytes :: "32 word \<Rightarrow> 8 word list" where
  "word_bytes w = map (\<lambda>k. ucast (drop_bit k w)) [24, 16, 8, 0]"

definition sha256 :: "8 word list \<Rightarrow> 8 word list" where
  "sha256 msg =
     (let p = sha_pad msg
      in case sha_blocks (length p div 64) sha_H0 p of
           (a, b, c, d, e, f, g, h) \<Rightarrow> concat (map word_bytes [a, b, c, d, e, f, g, h]))"

definition hex_digit :: "nat \<Rightarrow> char" where
  "hex_digit d = ''0123456789abcdef'' ! d"

definition hex_byte :: "8 word \<Rightarrow> string" where
  "hex_byte b = [hex_digit (unat b div 16), hex_digit (unat b mod 16)]"

definition hexdigest :: "8 word list \<Rightarrow> string" where
  "hexdigest bs = concat (map hex_byte bs)"

section \<open>build\_index.py\<close>

subsection \<open>classify\_doc\_type\<close>

definition classify_doc_type :: "string \<Rightarrow> string" where
  "classify_doc_type filename =
     (let fn = lower filename
      in if contains ''satzung'' fn then ''satzung''
         else if contains ''datenschutz'' fn then ''datenschutz''
         else if contains ''event'' fn \<or> contains ''terms'' fn then ''event_terms''
         else if contains ''spons'' fn \<or> contains ''partner'' fn then ''sponsoring''
         else ''other'')"

text \<open>
  The classification as the specification words it: the same chain, with the
  keywords it names (satzung, datenschutz, event/terms, sponsoring/partner).
\<close>

definition classify_doc_type_spec :: "string \<Rightarrow> string" where
  "classify_doc_type_spec filename =
     (let fn = lower filename
      in if contains ''satzung'' fn then ''satzung''
         else if contains ''datenschutz'' fn then ''datenschutz''
         else if contains ''event'' fn \<or> contains ''terms'' fn then ''event_terms''
         else if contains ''sponsoring'' fn \<or> contains ''partner'' fn then ''sponsoring''
         else ''other'')"

subsection \<open>stable\_id\<close>

text \<open>\<open>page or 0\<close>: \<open>None\<close> and \<open>0\<close> are both falsy.\<close>

definition page_or_0 :: "int option \<Rightarrow> int" where
  "page_or_0 page = (case page of None \<Rightarrow> 0 | Some p \<Rightarrow> (if p = 0 then 0 else p))"

text \<open>The f-string \<open>f"{source}|{page or 0}|{chunk_idx}|{text}"\<close>.\<close>

definition stable_id_key :: "string \<Rightarrow> int option \<Rightarrow> int \<Rightarrow> string \<Rightarrow> string" where
  "stable_id_key source page chunk_idx text =
     source @ ''|'' @ str_int (page_or_0 page) @ ''|'' @ str_int chunk_idx @ ''|'' @ text"

definition stable_id :: "string \<Rightarrow> int option \<Rightarrow> int \<Rightarrow> string \<Rightarrow> string" where
  "stable_id source page chunk_idx text =
     hexdigest (sha256 (utf8 (stable_id_key source page chunk_idx text)))"

subsection \<open>chunk\_text\<close>

text \<open>\<open>paras = [p.strip() for p in text.split("\n") if p.strip()]\<close>\<close>

definition paragraphs :: "string \<Rightarrow> string list" where
  "paragraphs text = map strip (filter (\<lambda>p. strip p \<noteq> []) (split_on nl text))"

text \<open>The loop over \<open>paras\<close>, on the pair of \<open>chunks\<close> and \<open>cur\<close>.\<close>

fun accumulate :: "int \<Rightarrow> string list \<Rightarrow> string list \<times> string \<Rightarrow> string list \<times> string" where
  "accumulate max_chars [] (chunks, cur) = (chunks, cur)"
| "accumulate max_chars (p # ps) (chunks, cur) =
     (if int (length cur) + int (length p) + 1 \<le> max_chars
      then accumulate max_chars ps (chunks, strip (cur @ [nl] @ p))
      else accumulate max_chars ps (if cur \<noteq> [] then chunks @ [cur] else chunks, p))"

text \<open>The loop and the final flush of a non-empty \<open>cur\<close>: the chunks before the
  overlap is added.\<close>

definition accumulated :: "int \<Rightarrow> string list \<Rightarrow> string list" where
  "accumulated max_chars paras =
     (case accumulate max_chars paras ([], []) of
        (chunks, cur) \<Rightarrow> (if cur \<noteq> [] then chunks @ [cur] else chunks))"

text \<open>The body of the overlap loop at index \<open>i\<close>.\<close>

definition overlapped_at :: "int \<Rightarrow> string list \<Rightarrow> nat \<Rightarrow> string" where
  "overlapped_at overlap chunks i =
     (if i = 0 then chunks ! i
      else (let prev = chunks ! (i - 1);
                pre = (if int (length prev) > overlap then slice_from (- overlap) prev else prev)
            in strip (pre @ [nl] @ chunks ! i)))"

definition add_overlap :: "int \<Rightarrow> string list \<Rightarrow> string list" where
  "add_overlap overlap chunks =
     (if overlap \<noteq> 0 \<and> length chunks > 1
      then map (overlapped_at overlap chunks) [0 ..< length chunks]
      else chunks)"

definition chunk_text :: "string \<Rightarrow> int \<Rightarrow> int \<Rightarrow> string list" where
  "chunk_text text max_chars overlap = add_overlap overlap (accumulated max_chars (paragraphs text))"

text \<open>
  The accumulation as the specification words it, on buffers of whole paragraphs: a
  paragraph joins the buffer when the buffer and the paragraph, joined by newlines,
  do not exceed \<open>max_chars\<close>; otherwise a non-empty buffer is emitted and the
  paragraph starts a new one; a final non-empty buffer is emitted.
\<close>

fun greedy :: "int \<Rightarrow> string list \<Rightarrow> string list \<Rightarrow> string list list" where
  "greedy max_chars buf [] = (if buf = [] then [] else [buf])"
| "greedy max_chars buf (p # ps) =
     (if int (length (join [nl] (buf @ [p]))) \<le> max_chars
      then greedy max_chars (buf @ [p]) ps
      else (if buf = [] then [] else [buf]) @ greedy max_chars [p] ps)"

text \<open>The last \<open>n\<close> elements of a list, or all of it when it is shorter.\<close>

definition lastn :: "nat \<Rightarrow> 'a list \<Rightarrow> 'a list" where
  "lastn n xs = drop (length xs - n) xs"

text \<open>A string as \<open>strip\<close> leaves it when it is not empty: it begins and ends
  with a character that is not whitespace.\<close>

definition stripped :: "string \<Rightarrow> bool" where
  "stripped s \<longleftrightarrow> s \<noteq> [] \<and> \<not> isspace (hd s) \<and> \<not> isspace (last s)"

section \<open>session\_store.py\<close>

text \<open>
  The SQLite file holds two tables. \<open>sessions\<close> has the primary key \<open>session_id\<close>:
  a map from the key to the rest of the row. \<open>messages\<close> is a list of rows, with the
  counter that \<open>AUTOINCREMENT\<close> keeps in \<open>sqlite_sequence\<close>. Each function opens a
  connection, runs its statements in one transaction and commits; a statement that
  violates a constraint raises \<open>sqlite3.IntegrityError\<close> and the transaction is
  rolled back. \<open>time.time()\<close> is the argument \<open>now\<close>.
\<close>

record session_row =
  summary :: string
  created_at :: int
  updated_at :: int

record message_row =
  msg_id :: int
  msg_session_id :: string
  msg_role :: string
  msg_content :: string
  msg_created_at :: int

record db =
  sessions :: "string \<rightharpoonup> session_row"
  messages :: "message_row list"
  sqlite_sequence :: int

text \<open>A \<open>{"role": ..., "content": ...}\<close> dictionary.\<close>

record message =
  role :: string
  content :: string

datatype db_error = IntegrityError

text \<open>The database after \<open>init_db\<close> on a new file.\<close>

definition init_db :: db where
  "init_db = \<lparr>sessions = Map.empty, messages = [], sqlite_sequence = 0\<rparr>"

definition touch_session :: "int \<Rightarrow> string \<Rightarrow> db \<Rightarrow> db" where
  "touch_session now session_id d =
     (case sessions d session_id of
        None \<Rightarrow>
          d\<lparr>sessions := (sessions d)(session_id \<mapsto>
               \<lparr>summary = [], created_at = now, updated_at = now\<rparr>)\<rparr>
      | Some r \<Rightarrow> d\<lparr>sessions := (sessions d)(session_id \<mapsto> r\<lparr>updated_at := now\<rparr>)\<rparr>)"

definition get_summary :: "db \<Rightarrow> string \<Rightarrow> string" where
  "get_summary d session_id =
     (case sessions d session_id of None \<Rightarrow> [] | Some r \<Rightarrow> summary r)"

definition set_summary :: "int \<Rightarrow> string \<Rightarrow> string \<Rightarrow> db \<Rightarrow> db" where
  "set_summary now session_id new_summary d =
     (case sessions d session_id of
        None \<Rightarrow>
          d\<lparr>sessions := (sessions d)(session_id \<mapsto>
               \<lparr>summary = new_summary, created_at = now, updated_at = now\<rparr>)\<rparr>
      | Some r \<Rightarrow>
          d\<lparr>sessions := (sessions d)(session_id \<mapsto>
               r\<lparr>summary := new_summary, updated_at := now\<rparr>)\<rparr>)"

text \<open>\<open>INTEGER PRIMARY KEY AUTOINCREMENT\<close>: one more than the largest id the table
  holds or has ever held.\<close>

definition next_id :: "db \<Rightarrow> int" where
  "next_id d = fold max (map msg_id (messages d)) (sqlite_sequence d) + 1"

text \<open>The \<open>INSERT\<close> fails on the \<open>CHECK\<close> of the role and on the foreign key of the
  session; the \<open>UPDATE\<close> then touches the session's row.\<close>

definition append_message :: "int \<Rightarrow> string \<Rightarrow> string \<Rightarrow> string \<Rightarrow> db \<Rightarrow> db_error + db" where
  "append_message now session_id r c d =
     (if r \<noteq> ''user'' \<and> r \<noteq> ''assistant'' then Inl IntegrityError
      else case sessions d session_id of
        None \<Rightarrow> Inl IntegrityError
      | Some s \<Rightarrow>
          Inr (d\<lparr>messages := messages d @
                    [\<lparr>msg_id = next_id d, msg_session_id = session_id, msg_role = r,
                      msg_content = c, msg_created_at = now\<rparr>],
                  sqlite_sequence := next_id d,
                  sessions := (sessions d)(session_id \<mapsto> s\<lparr>updated_at := now\<rparr>)\<rparr>))"

text \<open>\<open>LIMIT n\<close>: SQLite puts no bound on the rows when \<open>n\<close> is negative.\<close>

definition sql_limit :: "int \<Rightarrow> 'a list \<Rightarrow> 'a list" where
  "sql_limit n rows = (if n < 0 then rows else take (nat n) rows)"

text \<open>\<open>SELECT ... FROM messages WHERE session_id=? ORDER BY id DESC LIMIT ?\<close>\<close>

definition select_last :: "db \<Rightarrow> string \<Rightarrow> int \<Rightarrow> message_row list" where
  "select_last d session_id n =
     sql_limit n (rev (sort_key msg_id (filter (\<lambda>r. msg_session_id r = session_id) (messages d))))"

definition get_last_messages :: "db \<Rightarrow> string \<Rightarrow> int \<Rightarrow> message list" where
  "get_last_messages d session_id limit =
     map (\<lambda>r. \<lparr>role = msg_role r, content = msg_content r\<rparr>) (rev (select_last d session_id limit))"

definition count_messages :: "db \<Rightarrow> string \<Rightarrow> int" where
  "count_messages d session_id =
     int (length (filter (\<lambda>r. msg_session_id r = session_id) (messages d)))"

definition delete_oldest_messages :: "db \<Rightarrow> string \<Rightarrow> int \<Rightarrow> db" where
  "delete_oldest_messages d session_id keep_last =
     d\<lparr>messages :=
         filter (\<lambda>r. \<not> (msg_session_id r = session_id \<and>
                          msg_id r \<notin> set (map msg_id (select_last d session_id keep_last))))
           (messages d)\<rparr>"

text \<open>The messages of a session in the order of their ids, which is the order of
  insertion; and the primary key of \<open>messages\<close>.\<close>

definition session_messages :: "db \<Rightarrow> string \<Rightarrow> message_row list" where
  "session_messages d session_id =
     sort_key msg_id (filter (\<lambda>r. msg_session_id r = session_id) (messages d))"

definition primary_key :: "db \<Rightarrow> bool" where
  "primary_key d = distinct (map msg_id (messages d))"

section \<open>main.py\<close>

subsection \<open>retrieve\_context\<close>

text \<open>
  The embedding service and the Chroma collection are external: \<open>get_embedding\<close>
  gives \<open>None\<close> when the request raises, \<open>query\<close> gives \<open>None\<close> when
  \<open>collection.query\<close> (or reading its result) raises, and otherwise the documents
  and metadata of the first query. \<open>'e\<close> is the type of embeddings and
  \<open>dummy_embedding\<close> the probe's \<open>[[0.0]]\<close>. A \<open>where\<close> filter is one key and the
  value it must equal.
\<close>

type_synonym where_filter = "string \<times> string"

datatype meta_value = MStr string | MInt int

type_synonym metadata = "(string \<times> meta_value) list option"

record query_result =
  documents :: "string list"
  metadatas :: "metadata list"

record 'e store =
  get_embedding :: "string \<Rightarrow> 'e option"
  query :: "'e \<Rightarrow> int \<Rightarrow> where_filter option \<Rightarrow> query_result option"
  dummy_embedding :: "'e"

text \<open>\<open>(m or {}).get(key)\<close>\<close>

definition meta_get :: "metadata \<Rightarrow> string \<Rightarrow> meta_value option" where
  "meta_get m key = (case m of None \<Rightarrow> None | Some kvs \<Rightarrow> map_of kvs key)"

definition has_satzung_chunks :: "'e store \<Rightarrow> bool" where
  "has_satzung_chunks st =
     (case query st (dummy_embedding st) 1 (Some (''doc_type'', ''satzung'')) of
        Some probe \<Rightarrow> documents probe \<noteq> []
      | None \<Rightarrow>
          (case get_embedding st ''FFI Satzung'' of
             None \<Rightarrow> False
           | Some qemb \<Rightarrow>
               (case query st qemb 5 None of
                  None \<Rightarrow> False
                | Some res \<Rightarrow>
                    list_ex (\<lambda>m. meta_get m ''doc_type'' = Some (MStr ''satzung''))
                      (metadatas res))))"

text \<open>The choice of the filter, on the global \<open>_SATZUNG_PRESENT\<close>: the filter and
  the new value of the global.\<close>

definition select_where :: "'e store \<Rightarrow> bool option \<Rightarrow> string \<Rightarrow> where_filter option \<times> bool option" where
  "select_where st satzung_present user_text =
     (let q = lower user_text
      in if contains ''satzung'' q
         then (let present = (case satzung_present of
                                None \<Rightarrow> has_satzung_chunks st
                              | Some b \<Rightarrow> b)
               in (if present then Some (''doc_type'', ''satzung'') else None, Some present))
         else (None, satzung_present))"

definition meta_str :: "meta_value \<Rightarrow> string" where
  "meta_str v = (case v of MStr s \<Rightarrow> s | MInt i \<Rightarrow> str_int i)"

definition truthy :: "meta_value \<Rightarrow> bool" where
  "truthy v = (case v of MStr s \<Rightarrow> s \<noteq> [] | MInt i \<Rightarrow> i \<noteq> 0)"

definition snippet :: "string \<times> metadata \<Rightarrow> string" where
  "snippet dm =
     (case dm of (doc, meta) \<Rightarrow>
       (let source = (case meta_get meta ''source'' of None \<Rightarrow> ''unbekannt'' | Some v \<Rightarrow> meta_str v);
            doc_type = (case meta_get meta ''doc_type'' of None \<Rightarrow> ''unknown'' | Some v \<Rightarrow> meta_str v);
            loc = (case meta_get meta ''page'' of
                     None \<Rightarrow> []
                   | Some v \<Rightarrow> (if truthy v then [''p.'' @ meta_str v] else []))
                  @ (case meta_get meta ''chunk'' of
                       None \<Rightarrow> []
                     | Some v \<Rightarrow> [''chunk '' @ meta_str v]);
            loc_str = join '', '' loc;
            header = ''['' @ source @ '' | '' @ doc_type
                     @ (if loc_str \<noteq> [] then '' | '' @ loc_str else []) @ '']''
        in header @ [nl] @ doc))"

datatype retrieval_error = QueryError

text \<open>Steps 4 and 5: nothing for an empty result, and otherwise the labelled
  snippets in the order of the result, joined by a separator line.\<close>

definition format_results :: "query_result option \<Rightarrow> retrieval_error + string" where
  "format_results res =
     (case res of
        None \<Rightarrow> Inl QueryError
      | Some results \<Rightarrow>
          (if documents results = [] then Inr []
           else Inr (join ([nl, nl] @ ''---'' @ [nl, nl])
                       (map snippet (zip (documents results) (metadatas results))))))"

definition retrieve_context ::
    "'e store \<Rightarrow> bool option \<Rightarrow> string \<Rightarrow> int \<Rightarrow> (retrieval_error + string) \<times> bool option" where
  "retrieve_context st satzung_present user_text k =
     (case get_embedding st (''FFI '' @ user_text) of
        None \<Rightarrow> (Inr [], satzung_present)
      | Some query_emb \<Rightarrow>
          (case select_where st satzung_present user_text of
             (wh, present) \<Rightarrow> (format_results (query st query_emb k wh), present)))"

subsection \<open>chat\<close>

definition SUMMARY_TRIGGER_MESSAGES :: int where
  "SUMMARY_TRIGGER_MESSAGES = 20"

definition KEEP_LAST_MESSAGES :: int where
  "KEEP_LAST_MESSAGES = 12"

text \<open>\<open>xs[:i]\<close> for an integer \<open>i\<close>.\<close>

definition slice_to :: "int \<Rightarrow> 'a list \<Rightarrow> 'a list" where
  "slice_to i xs =
     (if i < 0 then take (nat (int (length xs) + i)) xs else take (nat i) xs)"

text \<open>
  A call of the language model is external. Its outcome is \<open>Failed\<close> when the
  request, \<open>raise_for_status\<close> or the reading of the reply raises, \<open>NoContent\<close>
  when the reply holds no \<open>message.content\<close>, and the content otherwise. The
  requests themselves (the prompts and the message list) are not modelled.
\<close>

datatype ollama_result = Failed | NoContent | Content string

text \<open>\<open>new_summary\<close>: the stripped content, and the empty string when the call
  raises or the reply has no content.\<close>

definition summary_of :: "ollama_result \<Rightarrow> string" where
  "summary_of res = (case res of Content c \<Rightarrow> strip c | _ \<Rightarrow> [])"

definition old_part_of :: "db \<Rightarrow> string \<Rightarrow> message list" where
  "old_part_of d session_id =
     (let older = get_last_messages d session_id (SUMMARY_TRIGGER_MESSAGES + KEEP_LAST_MESSAGES)
      in if int (length older) > KEEP_LAST_MESSAGES then slice_to (- KEEP_LAST_MESSAGES) older else [])"

text \<open>Step 3 of \<open>chat\<close>, on the database and the local variables \<open>summary\<close> and
  \<open>history\<close>; \<open>sum_resp\<close> is the outcome of the summarisation call, made only when
  \<open>old_part\<close> is not empty.\<close>

definition rolling_summary ::
    "int \<Rightarrow> ollama_result \<Rightarrow> string \<Rightarrow> db \<times> string \<times> message list \<Rightarrow> db \<times> string \<times> message list" where
  "rolling_summary now sum_resp session_id st =
     (case st of (d, summary_v, history) \<Rightarrow>
        (if count_messages d session_id > SUMMARY_TRIGGER_MESSAGES
         then (if old_part_of d session_id \<noteq> []
               then (let new_summary = summary_of sum_resp
                     in if new_summary \<noteq> []
                        then (let d1 = set_summary now session_id new_summary d;
                                  d2 = delete_oldest_messages d1 session_id KEEP_LAST_MESSAGES
                              in (d2, new_summary, get_last_messages d2 session_id KEEP_LAST_MESSAGES))
                        else (d, summary_v, history))
               else (d, summary_v, history))
         else (d, summary_v, history)))"

record chat_request =
  req_messages :: "message list"
  req_message :: "string option"
  req_session_id :: "string option"

text \<open>What one request sees of the outside: \<open>uuid4()\<close>, the clock at each write,
  and the outcomes of the two model calls.\<close>

record chat_env =
  uuid4 :: string
  t_touch :: int
  t_summary :: int
  t_user :: int
  t_assistant :: int
  summarizer :: ollama_result
  model_reply :: ollama_result

datatype http_error = HTTPException int

text \<open>Step 0: the user's text, from \<open>message\<close> or else from the last of
  \<open>messages\<close>. Step 1: the session id, from the request or else a new UUID.\<close>

definition chat_user_text :: "chat_request \<Rightarrow> string" where
  "chat_user_text req =
     (let text0 = strip (case req_message req of None \<Rightarrow> [] | Some m \<Rightarrow> m)
      in if text0 = [] \<and> req_messages req \<noteq> []
         then strip (content (last (req_messages req))) else text0)"

definition chat_session_id :: "chat_env \<Rightarrow> chat_request \<Rightarrow> string" where
  "chat_session_id env req =
     strip (case req_session_id req of
              None \<Rightarrow> uuid4 env
            | Some s \<Rightarrow> (if s = [] then uuid4 env else s))"

definition chat :: "chat_env \<Rightarrow> db \<Rightarrow> chat_request \<Rightarrow> (http_error + string \<times> string) \<times> db" where
  "chat env d req =
     (let user_text = chat_user_text req
      in if user_text = [] then (Inl (HTTPException 400), d)
         else
           (let session_id = chat_session_id env req;
                d1 = touch_session (t_touch env) session_id d;
                summary_v = get_summary d1 session_id;
                history = get_last_messages d1 session_id KEEP_LAST_MESSAGES;
                d2 = fst (rolling_summary (t_summary env) (summarizer env) session_id
                            (d1, summary_v, history))
            in case model_reply env of
                 Content r \<Rightarrow>
                   (case append_message (t_user env) session_id ''user'' user_text d2 of
                      Inl e \<Rightarrow> (Inl (HTTPException 500), d2)
                    | Inr d3 \<Rightarrow>
                        (case append_message (t_assistant env) session_id ''assistant'' (strip r) d3 of
                           Inl e \<Rightarrow> (Inl (HTTPException 500), d3)
                         | Inr d4 \<Rightarrow> (Inr (session_id, strip r), d4)))
               | _ \<Rightarrow> (Inl (HTTPException 500), d2)))"

section \<open>Example data\<close>

text \<open>A database with two sessions: three messages of \<open>s\<close> and one of \<open>t\<close>.\<close>

definition db_example :: db where
  "db_example =
     \<lparr>sessions = [''s'' \<mapsto> \<lparr>summary = [], created_at = 1, updated_at = 5\<rparr>,
                  ''t'' \<mapsto> \<lparr>summary = [], created_at = 2, updated_at = 3\<rparr>],
      messages =
        [\<lparr>msg_id = 1, msg_session_id = ''s'', msg_role = ''user'', msg_content = ''hi'', msg_created_at = 2\<rparr>,
         \<lparr>msg_id = 2, msg_session_id = ''t'', msg_role = ''user'', msg_content = ''yo'', msg_created_at = 3\<rparr>,
         \<lparr>msg_id = 3, msg_session_id = ''s'', msg_role = ''assistant'', msg_content = ''ho'', msg_created_at = 4\<rparr>,
         \<lparr>msg_id = 4, msg_session_id = ''s'', msg_role = ''user'', msg_content = ''hu'', msg_created_at = 5\<rparr>],
      sqlite_sequence = 4\<rparr>"

text \<open>A session with 21 messages, a request on it, and an environment whose
  summarisation call fails.\<close>

definition db_long :: db where
  "db_long =
     \<lparr>sessions = [''s'' \<mapsto> \<lparr>summary = ''- plan'', created_at = 1, updated_at = 22\<rparr>],
      messages = map (\<lambda>i. \<lparr>msg_id = int i, msg_session_id = ''s'',
                            msg_role = (if even i then ''assistant'' else ''user''),
                            msg_content = ''m'', msg_created_at = int i + 1\<rparr>) [1 ..< 22],
      sqlite_sequence = 21\<rparr>"

definition env_failing :: chat_env where
  "env_failing =
     \<lparr>uuid4 = ''u'', t_touch = 30, t_summary = 31, t_user = 32, t_assistant = 33,
      summarizer = Failed, model_reply = Content ''ok''\<rparr>"

definition req_example :: chat_request where
  "req_example = \<lparr>req_messages = [], req_message = Some ''next'', req_session_id = Some ''s''\<rparr>"

text \<open>Two texts for the chunker: one with a paragraph longer than five characters,
  one whose first chunk has a space among its last three characters.\<close>

definition text_oversized :: string where
  "text_oversized = ''ab'' @ [nl] @ ''  abcdefgh '' @ [nl] @ [nl] @ ''cd''"

definition text_overlap :: string where
  "text_overlap = ''ab cd'' @ [nl] @ ''efgh''"

text \<open>A store with no chunk of type \<open>satzung\<close>: a filtered query finds nothing, an
  unfiltered one finds one document.\<close>

definition store_no_satzung :: "nat store" where
  "store_no_satzung =
     \<lparr>get_embedding = (\<lambda>s. Some (length s)),
      query = (\<lambda>e k wh. Some (case wh of
                 None \<Rightarrow> \<lparr>documents = [''Beitrag 10 EUR''],
                           metadatas = [Some [(''source'', MStr ''beitrag.txt''),
                                              (''doc_type'', MStr ''other''),
                                              (''chunk'', MInt 0)]]\<rparr>
               | Some f \<Rightarrow> \<lparr>documents = [], metadatas = []\<rparr>)),
      dummy_embedding = 0\<rparr>"

section \<open>Properties\<close>

declare str_nat.simps [simp del]

subsection \<open>The content identifier\<close>

lemma page_or_0_None: "page_or_0 None = page_or_0 (Some 0)"
  by (simp add: page_or_0_def)

text \<open>
  C10. \<open>stable_id\<close> is not injective. A missing page and page 0 give the same key,
  and so the same identifier, for every source, chunk index and text. A source name
  that holds the separator moves the field boundaries: the source \<open>a|1\<close> with page 2,
  chunk 3 and text \<open>x\<close> has the key \<open>a|1|2|3|x\<close>, and so has the source \<open>a\<close> with
  page 1, chunk 2 and text \<open>3|x\<close>.
\<close>

theorem stable_id_not_injective:
  "stable_id_key s None i t = stable_id_key s (Some 0) i t
   \<and> stable_id s None i t = stable_id s (Some 0) i t
   \<and> (None :: int option) \<noteq> Some 0
   \<and> stable_id_key ''a|1'' (Some 2) 3 ''x'' = stable_id_key ''a'' (Some 1) 2 ''3|x''
   \<and> stable_id ''a|1'' (Some 2) 3 ''x'' = stable_id ''a'' (Some 1) 2 ''3|x''
   \<and> (''a|1'', Some (2::int), 3::int) \<noteq> (''a'', Some 1, 2)"
proof -
  have k: "stable_id_key ''a|1'' (Some 2) 3 ''x'' = stable_id_key ''a'' (Some 1) 2 ''3|x''"
    by (simp add: stable_id_key_def page_or_0_def str_int_def str_nat.simps digit_char_def)
  have i: "stable_id ''a|1'' (Some 2) 3 ''x'' = stable_id ''a'' (Some 1) 2 ''3|x''"
    by (simp only: stable_id_def k)
  have n: "stable_id_key s None i t = stable_id_key s (Some 0) i t"
    by (simp add: stable_id_key_def page_or_0_None)
  have m: "stable_id s None i t = stable_id s (Some 0) i t"
    by (simp only: stable_id_def n)
  show ?thesis
    using k i n m by simp
qed

text \<open>The model of SHA-256 on the test vector \<open>abc\<close> of FIPS 180-4.\<close>

lemma sha256_abc:
  "hexdigest (sha256 (utf8 ''abc'')) = ''ba7816bf8f01cfea414140de5dae2223b00361a396177a9cb410ff61f20015ad''"
  by code_simp

lemma length_hexdigest: "length (hexdigest bs) = 2 * length bs"
  by (induction bs) (simp_all add: hexdigest_def hex_byte_def)

lemma length_sha256: "length (sha256 msg) = 32"
  by (simp add: sha256_def word_bytes_def Let_def split: prod.splits)

lemma hex_digit_mem: "d < 16 \<Longrightarrow> hex_digit d \<in> set ''0123456789abcdef''"
  unfolding hex_digit_def by (rule nth_mem) simp

lemma set_hex_byte: "set (hex_byte b) \<subseteq> set ''0123456789abcdef''"
proof -
  have "unat b < 2 ^ 8" using unsigned_less [of b] by simp
  then have lt: "unat b < 256" by simp
  have q: "unat b div 16 < 16" using lt by (simp add: less_mult_imp_div_less)
  have r: "unat b mod 16 < 16" by simp
  define S where "S = set ''0123456789abcdef''"
  have a: "hex_digit (unat b div 16) \<in> S"
    unfolding S_def using q by (rule hex_digit_mem)
  have c: "hex_digit (unat b mod 16) \<in> S"
    unfolding S_def using r by (rule hex_digit_mem)
  have "set (hex_byte b) \<subseteq> S"
    by (simp add: hex_byte_def a c)
  then show ?thesis
    by (simp only: S_def)
qed

lemma set_hexdigest: "set (hexdigest bs) \<subseteq> set ''0123456789abcdef''"
proof
  fix c assume "c \<in> set (hexdigest bs)"
  then obtain b where "c \<in> set (hex_byte b)"
    by (auto simp only: hexdigest_def set_concat set_map)
  then show "c \<in> set ''0123456789abcdef''"
    using set_hex_byte [of b] by (rule subsetD [rotated])
qed

lemma page_or_0_eq: "page_or_0 page = (case page of None \<Rightarrow> 0 | Some p \<Rightarrow> p)"
  by (simp add: page_or_0_def split: option.splits)

text \<open>
  C8. For every source name, page, chunk index and text, \<open>stable_id\<close> is the
  hexadecimal SHA-256 digest of the UTF-8 bytes of \<open>source|page|chunk_idx|text\<close>,
  where a missing page is written 0: 64 characters, each a lowercase hexadecimal
  digit. It is a function of its four arguments alone, so equal inputs give equal
  identifiers; a missing page and page 0 give the same one.
\<close>

theorem stable_id_sha256_hex:
  "stable_id source page chunk_idx text =
     hexdigest (sha256 (utf8 (source @ ''|'' @ str_int (case page of None \<Rightarrow> 0 | Some p \<Rightarrow> p)
                               @ ''|'' @ str_int chunk_idx @ ''|'' @ text)))
   \<and> length (stable_id source page chunk_idx text) = 64
   \<and> set (stable_id source page chunk_idx text) \<subseteq> set ''0123456789abcdef''
   \<and> stable_id source None chunk_idx text = stable_id source (Some 0) chunk_idx text"
proof -
  have n: "stable_id source None chunk_idx text = stable_id source (Some 0) chunk_idx text"
    by (simp add: stable_id_def stable_id_key_def page_or_0_None)
  have l: "length (stable_id source page chunk_idx text) = 64"
    by (simp add: stable_id_def length_hexdigest length_sha256)
  have h: "set (stable_id source page chunk_idx text) \<subseteq> set ''0123456789abcdef''"
    unfolding stable_id_def by (rule set_hexdigest)
  have k: "stable_id source page chunk_idx text =
     hexdigest (sha256 (utf8 (source @ ''|'' @ str_int (case page of None \<Rightarrow> 0 | Some p \<Rightarrow> p)
                               @ ''|'' @ str_int chunk_idx @ ''|'' @ text)))"
    by (simp add: stable_id_def stable_id_key_def page_or_0_eq)
  show ?thesis
    using k l h n by blast
qed

lemma stable_id_key_example:
  "stable_id_key ''Satzung.pdf'' None 12 ''Der Verein'' = ''Satzung.pdf|0|12|Der Verein''
   \<and> stable_id_key ''a.txt'' (Some 3) (- 1) ''x'' = ''a.txt|3|-1|x''"
  by (simp add: stable_id_key_def page_or_0_def str_int_def str_nat.simps digit_char_def)

subsection \<open>The document type\<close>

lemma of_char_lower_char:
  "of_char (lower_char c) = (let n = (of_char c :: nat) in
      if (65 \<le> n \<and> n \<le> 90) \<or> (192 \<le> n \<and> n \<le> 222 \<and> n \<noteq> 215) then n + 32 else n)"
  by (simp add: lower_char_def Let_def)

lemma lower_char_idem: "lower_char (lower_char c) = lower_char c"
proof -
  have "(of_char (lower_char (lower_char c)) :: nat) = of_char (lower_char c)"
    by (simp add: of_char_lower_char Let_def)
  then show ?thesis by simp
qed

lemma lower_idem: "lower (lower s) = lower s"
  by (simp add: lower_def lower_char_idem)

text \<open>
  C9, as stated, reads the fourth heuristic as the keywords \<open>sponsoring\<close> and
  \<open>partner\<close>. The code matches the shorter \<open>spons\<close>: \<open>sponsor.pdf\<close> is classified
  \<open>sponsoring\<close>, where the chain over the stated keywords gives \<open>other\<close>.
\<close>

theorem classify_doc_type_sponsor_counterexample:
  "classify_doc_type ''sponsor.pdf'' = ''sponsoring''
   \<and> classify_doc_type_spec ''sponsor.pdf'' = ''other''"
  by code_simp

text \<open>
  C9, amended. The classification of every filename is one of \<open>satzung\<close>,
  \<open>datenschutz\<close>, \<open>event_terms\<close>, \<open>sponsoring\<close>, \<open>other\<close>. It is decided on the
  lowercased name by substring matching, the first match winning: \<open>satzung\<close>, then
  \<open>datenschutz\<close>, then \<open>event\<close> or \<open>terms\<close>, then \<open>spons\<close> or \<open>partner\<close>, and
  \<open>other\<close> when none occurs. Names that differ only in case are classified alike.
\<close>

theorem classify_doc_type_priority:
  "classify_doc_type f \<in> {''satzung'', ''datenschutz'', ''event_terms'', ''sponsoring'', ''other''}
   \<and> (classify_doc_type f = ''satzung'' \<longleftrightarrow> contains ''satzung'' (lower f))
   \<and> (classify_doc_type f = ''datenschutz'' \<longleftrightarrow>
        contains ''datenschutz'' (lower f) \<and> \<not> contains ''satzung'' (lower f))
   \<and> (classify_doc_type f = ''event_terms'' \<longleftrightarrow>
        (contains ''event'' (lower f) \<or> contains ''terms'' (lower f))
        \<and> \<not> contains ''satzung'' (lower f) \<and> \<not> contains ''datenschutz'' (lower f))
   \<and> (classify_doc_type f = ''sponsoring'' \<longleftrightarrow>
        (contains ''spons'' (lower f) \<or> contains ''partner'' (lower f))
        \<and> \<not> contains ''satzung'' (lower f) \<and> \<not> contains ''datenschutz'' (lower f)
        \<and> \<not> contains ''event'' (lower f) \<and> \<not> contains ''terms'' (lower f))
   \<and> (classify_doc_type f = ''other'' \<longleftrightarrow>
        \<not> contains ''satzung'' (lower f) \<and> \<not> contains ''datenschutz'' (lower f)
        \<and> \<not> contains ''event'' (lower f) \<and> \<not> contains ''terms'' (lower f)
        \<and> \<not> contains ''spons'' (lower f) \<and> \<not> contains ''partner'' (lower f))
   \<and> classify_doc_type (lower f) = classify_doc_type f
   \<and> (lower f = lower g \<longrightarrow> classify_doc_type f = classify_doc_type g)"
  by (simp add: classify_doc_type_def Let_def lower_idem)

theorem classify_doc_type_priority_witness:
  "lower ''FFI_SATZUNG_Datenschutz.PDF'' = lower ''ffi_satzung_datenschutz.pdf''
   \<and> classify_doc_type ''FFI_SATZUNG_Datenschutz.PDF'' = classify_doc_type ''ffi_satzung_datenschutz.pdf''
   \<and> classify_doc_type ''FFI_SATZUNG_Datenschutz.PDF'' = ''satzung''"
proof -
  have l: "lower ''FFI_SATZUNG_Datenschutz.PDF'' = lower ''ffi_satzung_datenschutz.pdf''"
    by code_simp
  have c: "contains ''satzung'' (lower ''FFI_SATZUNG_Datenschutz.PDF'')"
    by code_simp
  from classify_doc_type_priority [of "''FFI_SATZUNG_Datenschutz.PDF''" "''ffi_satzung_datenschutz.pdf''"] l c
  show ?thesis by blast
qed

subsection \<open>The session store\<close>

lemma rev_take_rev: "rev (take n (rev xs)) = lastn n xs"
  by (simp add: lastn_def rev_take)

lemma length_lastn: "length (lastn n xs) = min n (length xs)"
  by (simp add: lastn_def)

lemma select_last_nonneg:
  "0 \<le> n \<Longrightarrow> rev (select_last d sid n) = lastn (nat n) (session_messages d sid)"
  by (simp add: select_last_def sql_limit_def session_messages_def rev_take_rev)


lemma length_session_messages: "int (length (session_messages d sid)) = count_messages d sid"
  by (simp add: session_messages_def count_messages_def)

lemma sorted_session_messages: "sorted (map msg_id (session_messages d sid))"
  by (simp add: session_messages_def)


lemma filter_in_drop:
  assumes "distinct xs"
  shows "filter (\<lambda>x. x \<in> set (drop n xs)) xs = drop n xs"
proof -
  have disj: "set (take n xs) \<inter> set (drop n xs) = {}"
    using assms by (rule set_take_disj_set_drop_if_distinct) simp
  have "filter (\<lambda>x. x \<in> set (drop n xs)) xs =
          filter (\<lambda>x. x \<in> set (drop n xs)) (take n xs) @ filter (\<lambda>x. x \<in> set (drop n xs)) (drop n xs)"
    by (metis append_take_drop_id filter_append)
  also have "filter (\<lambda>x. x \<in> set (drop n xs)) (take n xs) = []"
    using disj by (auto simp add: filter_empty_conv)
  also have "filter (\<lambda>x. x \<in> set (drop n xs)) (drop n xs) = drop n xs"
    by simp
  finally show ?thesis by simp
qed

lemma filter_in_lastn: "distinct xs \<Longrightarrow> filter (\<lambda>x. x \<in> set (lastn n xs)) xs = lastn n xs"
  by (simp add: lastn_def filter_in_drop)

lemma set_select_last:
  "0 \<le> n \<Longrightarrow> set (select_last d sid n) = set (lastn (nat n) (session_messages d sid))"
  using select_last_nonneg [of n d sid] by (metis set_rev)

lemma set_lastn_subset: "set (lastn n xs) \<subseteq> set xs"
  by (simp add: lastn_def set_drop_subset)

lemma set_session_messages:
  "set (session_messages d sid) = {r \<in> set (messages d). msg_session_id r = sid}"
  by (auto simp add: session_messages_def)

lemma distinct_session_messages: "primary_key d \<Longrightarrow> distinct (session_messages d sid)"
  by (simp add: primary_key_def session_messages_def distinct_map)

lemma kept_iff:
  assumes pk: "primary_key d" and k: "0 \<le> n" and r: "r \<in> set (messages d)"
  shows "(\<not> (msg_session_id r = sid \<and> msg_id r \<notin> set (map msg_id (select_last d sid n))))
         \<longleftrightarrow> (msg_session_id r \<noteq> sid \<or> r \<in> set (lastn (nat n) (session_messages d sid)))"
proof -
  let ?L = "lastn (nat n) (session_messages d sid)"
  have inj: "inj_on msg_id (set (messages d))"
    using pk by (simp add: primary_key_def distinct_map)
  have sub: "set ?L \<subseteq> set (messages d)"
    using set_lastn_subset [of "nat n" "session_messages d sid"] set_session_messages [of d sid]
    by auto
  have "msg_id r \<in> msg_id ` set ?L \<longleftrightarrow> r \<in> set ?L"
  proof
    assume "msg_id r \<in> msg_id ` set ?L"
    then obtain r' where r': "r' \<in> set ?L" "msg_id r' = msg_id r" by auto
    with sub have "r' \<in> set (messages d)" by auto
    with inj r r'(2) have "r' = r" by (auto dest: inj_onD)
    with r'(1) show "r \<in> set ?L" by simp
  qed auto
  then show ?thesis
    using set_select_last [OF k, of d sid] by auto
qed

lemma messages_delete_oldest:
  assumes "primary_key d" and "0 \<le> n"
  shows "messages (delete_oldest_messages d sid n) =
           filter (\<lambda>r. msg_session_id r \<noteq> sid \<or> r \<in> set (lastn (nat n) (session_messages d sid)))
             (messages d)"
proof -
  have "filter (\<lambda>r. \<not> (msg_session_id r = sid \<and>
                          msg_id r \<notin> set (map msg_id (select_last d sid n)))) (messages d)
        = filter (\<lambda>r. msg_session_id r \<noteq> sid \<or> r \<in> set (lastn (nat n) (session_messages d sid)))
            (messages d)"
    by (rule filter_cong [OF refl]) (rule kept_iff [OF assms])
  then show ?thesis
    by (simp add: delete_oldest_messages_def)
qed

lemma session_messages_delete_oldest:
  assumes pk: "primary_key d" and k: "0 \<le> n"
  shows "session_messages (delete_oldest_messages d sid n) sid = lastn (nat n) (session_messages d sid)"
proof -
  let ?S = "session_messages d sid" and ?L = "lastn (nat n) (session_messages d sid)"
  have "session_messages (delete_oldest_messages d sid n) sid =
          sort_key msg_id (filter (\<lambda>r. r \<in> set ?L) (filter (\<lambda>r. msg_session_id r = sid) (messages d)))"
    unfolding session_messages_def [of "delete_oldest_messages d sid n"] messages_delete_oldest [OF pk k]
    by (auto intro!: arg_cong [where f = "sort_key msg_id"] filter_cong)
  also have "\<dots> = filter (\<lambda>r. r \<in> set ?L) ?S"
    by (simp add: session_messages_def filter_sort)
  also have "\<dots> = ?L"
    using distinct_session_messages [OF pk] by (rule filter_in_lastn)
  finally show ?thesis .
qed

lemma other_session_delete_oldest:
  assumes "primary_key d" and "0 \<le> n" and "sid' \<noteq> sid"
  shows "filter (\<lambda>r. msg_session_id r = sid') (messages (delete_oldest_messages d sid n))
         = filter (\<lambda>r. msg_session_id r = sid') (messages d)"
  unfolding messages_delete_oldest [OF assms(1,2)]
  using assms(3) by (auto intro: filter_cong)

lemma fold_max_ge: "(a::int) \<le> fold max xs a \<and> (\<forall>x\<in>set xs. x \<le> fold max xs a)"
proof (induction xs arbitrary: a)
  case Nil
  then show ?case by simp
next
  case (Cons x xs)
  from Cons.IH [of "max x a"] show ?case by auto
qed

lemma next_id_fresh: "r \<in> set (messages d) \<Longrightarrow> msg_id r < next_id d"
  using fold_max_ge [of "sqlite_sequence d" "map msg_id (messages d)"]
  by (auto simp add: next_id_def)

lemma next_id_notin: "next_id d \<notin> msg_id ` set (messages d)"
  using next_id_fresh [of _ d] by force

lemma primary_key_init_db: "primary_key init_db"
  by (simp add: primary_key_def init_db_def)

lemma primary_key_append_message:
  "primary_key d \<Longrightarrow> append_message now sid r c d = Inr d' \<Longrightarrow> primary_key d'"
  using next_id_notin [of d]
  by (auto simp add: append_message_def primary_key_def split: if_splits option.splits)

lemma primary_key_delete_oldest_messages:
  "primary_key d \<Longrightarrow> primary_key (delete_oldest_messages d sid n)"
  by (simp add: primary_key_def delete_oldest_messages_def distinct_map_filter)

lemma primary_key_touch_session: "primary_key (touch_session now sid d) = primary_key d"
  by (simp add: primary_key_def touch_session_def split: option.splits)

lemma primary_key_set_summary: "primary_key (set_summary now sid s d) = primary_key d"
  by (simp add: primary_key_def set_summary_def split: option.splits)



text \<open>
  C6. For every session and every \<open>K \<ge> 0\<close>, on a table whose ids are distinct (the
  primary key), \<open>delete_oldest_messages\<close> leaves exactly \<open>min(K, total)\<close> messages
  of the session: those with the largest ids, in the order of their ids. The rows
  that stay keep their order in the table, the messages of every other session are
  untouched, and so is the table of sessions.
\<close>

theorem delete_oldest_messages_keeps_last:
  assumes "primary_key d" and "0 \<le> K"
  shows "session_messages (delete_oldest_messages d sid K) sid = lastn (nat K) (session_messages d sid)
    \<and> count_messages (delete_oldest_messages d sid K) sid = min K (count_messages d sid)
    \<and> messages (delete_oldest_messages d sid K) =
        filter (\<lambda>r. msg_session_id r \<noteq> sid \<or> r \<in> set (lastn (nat K) (session_messages d sid)))
          (messages d)
    \<and> (\<forall>sid'. sid' \<noteq> sid \<longrightarrow>
          filter (\<lambda>r. msg_session_id r = sid') (messages (delete_oldest_messages d sid K))
          = filter (\<lambda>r. msg_session_id r = sid') (messages d))
    \<and> sessions (delete_oldest_messages d sid K) = sessions d
    \<and> sorted (map msg_id (session_messages d sid))"
proof -
  have c: "count_messages (delete_oldest_messages d sid K) sid = min K (count_messages d sid)"
    using length_session_messages [of "delete_oldest_messages d sid K" sid]
      length_session_messages [of d sid] assms(2)
    by (simp add: session_messages_delete_oldest [OF assms] length_lastn)
  show ?thesis
    using c session_messages_delete_oldest [OF assms] messages_delete_oldest [OF assms]
      other_session_delete_oldest [OF assms] sorted_session_messages [of d sid]
    by (simp add: delete_oldest_messages_def)
qed

theorem delete_oldest_messages_keeps_last_witness:
  "primary_key db_example \<and> (0::int) \<le> 2
   \<and> messages (delete_oldest_messages db_example ''s'' 2) =
       [\<lparr>msg_id = 2, msg_session_id = ''t'', msg_role = ''user'', msg_content = ''yo'', msg_created_at = 3\<rparr>,
        \<lparr>msg_id = 3, msg_session_id = ''s'', msg_role = ''assistant'', msg_content = ''ho'', msg_created_at = 4\<rparr>,
        \<lparr>msg_id = 4, msg_session_id = ''s'', msg_role = ''user'', msg_content = ''hu'', msg_created_at = 5\<rparr>]
   \<and> count_messages (delete_oldest_messages db_example ''s'' 2) ''s'' = 2"
proof -
  have pk: "primary_key db_example"
    by (simp add: primary_key_def db_example_def)
  have s: "session_messages db_example ''s'' =
     [\<lparr>msg_id = 1, msg_session_id = ''s'', msg_role = ''user'', msg_content = ''hi'', msg_created_at = 2\<rparr>,
      \<lparr>msg_id = 3, msg_session_id = ''s'', msg_role = ''assistant'', msg_content = ''ho'', msg_created_at = 4\<rparr>,
      \<lparr>msg_id = 4, msg_session_id = ''s'', msg_role = ''user'', msg_content = ''hu'', msg_created_at = 5\<rparr>]"
    by (simp add: session_messages_def db_example_def)
  have c: "count_messages db_example ''s'' = 3"
    by (simp add: count_messages_def db_example_def)
  have m: "messages db_example =
        [\<lparr>msg_id = 1, msg_session_id = ''s'', msg_role = ''user'', msg_content = ''hi'', msg_created_at = 2\<rparr>,
         \<lparr>msg_id = 2, msg_session_id = ''t'', msg_role = ''user'', msg_content = ''yo'', msg_created_at = 3\<rparr>,
         \<lparr>msg_id = 3, msg_session_id = ''s'', msg_role = ''assistant'', msg_content = ''ho'', msg_created_at = 4\<rparr>,
         \<lparr>msg_id = 4, msg_session_id = ''s'', msg_role = ''user'', msg_content = ''hu'', msg_created_at = 5\<rparr>]"
    by (simp add: db_example_def)
  from delete_oldest_messages_keeps_last [OF pk, of 2 "''s''"]
  show ?thesis
    using pk by (simp add: s c m lastn_def)
qed

subsection \<open>The rolling summary\<close>

lemma length_get_last_messages_nonneg:
  "0 \<le> n \<Longrightarrow> int (length (get_last_messages d sid n)) = min n (count_messages d sid)"
  using length_session_messages [of d sid]
  by (simp add: get_last_messages_def select_last_nonneg length_lastn)

lemma old_part_nonempty:
  assumes "count_messages d sid > SUMMARY_TRIGGER_MESSAGES"
  shows "old_part_of d sid \<noteq> []"
proof -
  let ?older = "get_last_messages d sid (SUMMARY_TRIGGER_MESSAGES + KEEP_LAST_MESSAGES)"
  have "int (length ?older) = min (SUMMARY_TRIGGER_MESSAGES + KEEP_LAST_MESSAGES) (count_messages d sid)"
    by (rule length_get_last_messages_nonneg)
       (simp add: SUMMARY_TRIGGER_MESSAGES_def KEEP_LAST_MESSAGES_def)
  with assms have "int (length ?older) > KEEP_LAST_MESSAGES"
    by (simp add: SUMMARY_TRIGGER_MESSAGES_def KEEP_LAST_MESSAGES_def)
  then show ?thesis
    by (auto simp add: old_part_of_def Let_def slice_to_def KEEP_LAST_MESSAGES_def)
qed

lemma summary_of_empty:
  "summary_of res = [] \<longleftrightarrow> res = Failed \<or> res = NoContent \<or> (\<exists>c. res = Content c \<and> strip c = [])"
  by (cases res) (simp_all add: summary_of_def)

lemma count_messages_touch_session:
  "count_messages (touch_session now sid d) sid' = count_messages d sid'"
  by (simp add: count_messages_def touch_session_def split: option.splits)

lemma messages_touch_session: "messages (touch_session now sid d) = messages d"
  by (simp add: touch_session_def split: option.splits)

lemma get_summary_touch_session:
  "get_summary (touch_session now sid d) sid' = get_summary d sid'"
  by (simp add: get_summary_def touch_session_def split: option.splits)

lemma sessions_touch_session: "sessions (touch_session now sid d) sid \<noteq> None"
  by (simp add: touch_session_def split: option.splits)

lemma rolling_summary_failure:
  assumes trig: "count_messages d sid > SUMMARY_TRIGGER_MESSAGES"
    and fail: "res = Failed \<or> res = NoContent \<or> (\<exists>c. res = Content c \<and> strip c = [])"
  shows "old_part_of d sid \<noteq> []
    \<and> rolling_summary now res sid (d, s, h) = (d, s, h)
    \<and> get_summary (fst (rolling_summary now res sid (d, s, h))) sid = get_summary d sid
    \<and> messages (fst (rolling_summary now res sid (d, s, h))) = messages d
    \<and> count_messages (fst (rolling_summary now res sid (d, s, h))) sid > SUMMARY_TRIGGER_MESSAGES"
proof -
  have e: "summary_of res = []"
    using fail by (simp add: summary_of_empty)
  have r: "rolling_summary now res sid (d, s, h) = (d, s, h)"
    by (simp add: rolling_summary_def e)
  show ?thesis
    using trig old_part_nonempty [OF trig] by (simp add: r)
qed

lemma append_message_facts:
  assumes "append_message now sid r c d = Inr d'"
  shows "messages d' = messages d @ [\<lparr>msg_id = next_id d, msg_session_id = sid, msg_role = r,
                      msg_content = c, msg_created_at = now\<rparr>]"
    and "get_summary d' sid' = get_summary d sid'"
    and "count_messages d sid' \<le> count_messages d' sid'"
  using assms
  by (auto simp add: append_message_def get_summary_def count_messages_def
        split: if_splits option.splits)

lemma append_message_ok:
  "sessions d sid \<noteq> None \<Longrightarrow> r = ''user'' \<or> r = ''assistant'' \<Longrightarrow>
   \<exists>d'. append_message now sid r c d = Inr d'"
  by (auto simp add: append_message_def)

lemma chat_failure:
  assumes trig: "count_messages d (chat_session_id env req) > SUMMARY_TRIGGER_MESSAGES"
    and fail: "summarizer env = Failed \<or> summarizer env = NoContent
               \<or> (\<exists>c. summarizer env = Content c \<and> strip c = [])"
  shows "get_summary (snd (chat env d req)) (chat_session_id env req)
           = get_summary d (chat_session_id env req)
    \<and> prefix (messages d) (messages (snd (chat env d req)))
    \<and> count_messages (snd (chat env d req)) (chat_session_id env req) > SUMMARY_TRIGGER_MESSAGES"
proof -
  define sid where "sid = chat_session_id env req"
  define I where "I a \<longleftrightarrow> get_summary a sid = get_summary d sid \<and> prefix (messages d) (messages a)
            \<and> count_messages a sid > SUMMARY_TRIGGER_MESSAGES" for a
  define d1 where "d1 = touch_session (t_touch env) sid d"
  have t1: "count_messages d1 sid > SUMMARY_TRIGGER_MESSAGES"
    using trig by (simp add: count_messages_touch_session d1_def sid_def)
  have r: "rolling_summary (t_summary env) (summarizer env) sid
             (d1, get_summary d1 sid, get_last_messages d1 sid KEEP_LAST_MESSAGES)
           = (d1, get_summary d1 sid, get_last_messages d1 sid KEEP_LAST_MESSAGES)"
    using rolling_summary_failure [OF t1 fail] by simp
  have I0: "I d"
    using trig by (simp add: I_def sid_def)
  have I1: "I d1"
    using t1 by (simp add: I_def d1_def get_summary_touch_session messages_touch_session)
  have step: "I b" if a: "I a" and b: "append_message now sid ro c a = Inr b" for a b now ro c
  proof -
    have "prefix (messages d) (messages b)"
      using a append_message_facts(1) [OF b] by (simp add: I_def)
    moreover have "get_summary b sid = get_summary d sid"
      using a append_message_facts(2) [OF b, of sid] by (simp add: I_def)
    moreover have "count_messages b sid > SUMMARY_TRIGGER_MESSAGES"
      using a append_message_facts(3) [OF b, of sid] by (simp add: I_def)
    ultimately show ?thesis by (simp add: I_def)
  qed
  have "I (snd (chat env d req))"
  proof (cases "chat_user_text req = []")
    case True
    then show ?thesis using I0 by (simp add: chat_def)
  next
    case False
    note nonempty = this
    show ?thesis
    proof (cases "model_reply env")
      case Failed
      then show ?thesis
        using I1 nonempty r by (simp add: chat_def Let_def sid_def [symmetric] d1_def [symmetric])
    next
      case NoContent
      then show ?thesis
        using I1 nonempty r by (simp add: chat_def Let_def sid_def [symmetric] d1_def [symmetric])
    next
      case (Content c)
      show ?thesis
      proof (cases "append_message (t_user env) sid ''user'' (chat_user_text req) d1")
        case (Inl e)
        then show ?thesis
          using I1 nonempty r Content
          by (simp add: chat_def Let_def sid_def [symmetric] d1_def [symmetric])
      next
        case (Inr d3)
        note u = this
        have I3: "I d3" using step [OF I1 u] .
        show ?thesis
        proof (cases "append_message (t_assistant env) sid ''assistant'' (strip c) d3")
          case (Inl e)
          then show ?thesis
            using I3 nonempty r Content u
            by (simp add: chat_def Let_def sid_def [symmetric] d1_def [symmetric])
        next
          case (Inr d4)
          have "I d4" using step [OF I3 Inr] .
          then show ?thesis
            using nonempty r Content u Inr
            by (simp add: chat_def Let_def sid_def [symmetric] d1_def [symmetric])
        qed
      qed
    qed
  qed
  then show ?thesis
    by (simp add: I_def sid_def)
qed

text \<open>
  C1. When a session holds more than \<open>SUMMARY_TRIGGER_MESSAGES\<close> messages, the older
  slice is not empty. If the summarisation call then fails, or returns no content,
  or content that is empty once stripped, step 3 of \<open>chat\<close> leaves the database and
  the local summary and history as they were: no \<open>set_summary\<close>, no
  \<open>delete_oldest_messages\<close>. After the whole request the session's summary is
  the same, its old messages are still there (the turn's two messages may follow
  them), and the count still exceeds the trigger, so the next turn tries again.
\<close>

theorem summarization_failure_leaves_session_unchanged:
  assumes "count_messages d sid > SUMMARY_TRIGGER_MESSAGES"
    and "res = Failed \<or> res = NoContent \<or> (\<exists>c. res = Content c \<and> strip c = [])"
  shows "old_part_of d sid \<noteq> []
    \<and> rolling_summary now res sid (d, s, h) = (d, s, h)
    \<and> get_summary (fst (rolling_summary now res sid (d, s, h))) sid = get_summary d sid
    \<and> messages (fst (rolling_summary now res sid (d, s, h))) = messages d
    \<and> count_messages (fst (rolling_summary now res sid (d, s, h))) sid > SUMMARY_TRIGGER_MESSAGES
    \<and> (\<forall>env req. summarizer env = res \<and> chat_session_id env req = sid \<longrightarrow>
          get_summary (snd (chat env d req)) sid = get_summary d sid
          \<and> prefix (messages d) (messages (snd (chat env d req)))
          \<and> count_messages (snd (chat env d req)) sid > SUMMARY_TRIGGER_MESSAGES)"
proof -
  have "get_summary (snd (chat env d req)) sid = get_summary d sid
          \<and> prefix (messages d) (messages (snd (chat env d req)))
          \<and> count_messages (snd (chat env d req)) sid > SUMMARY_TRIGGER_MESSAGES"
    if "summarizer env = res" and "chat_session_id env req = sid" for env req
    using chat_failure [of d env req] assms that by simp
  then show ?thesis
    using rolling_summary_failure [OF assms, of now s h] by blast
qed

theorem summarization_failure_leaves_session_unchanged_witness:
  "count_messages db_long ''s'' > SUMMARY_TRIGGER_MESSAGES
   \<and> rolling_summary 31 Failed ''s'' (db_long, ''- plan'', []) = (db_long, ''- plan'', [])
   \<and> get_summary (snd (chat env_failing db_long req_example)) ''s'' = ''- plan''
   \<and> count_messages (snd (chat env_failing db_long req_example)) ''s'' > SUMMARY_TRIGGER_MESSAGES"
proof -
  have c: "count_messages db_long ''s'' > SUMMARY_TRIGGER_MESSAGES"
    by (simp add: count_messages_def db_long_def SUMMARY_TRIGGER_MESSAGES_def)
  have e: "summarizer env_failing = Failed" "chat_session_id env_failing req_example = ''s''"
    by (simp_all add: env_failing_def chat_session_id_def req_example_def strip_def lstrip_def
          rstrip_def isspace_def)
  have g: "get_summary db_long ''s'' = ''- plan''"
    by (simp add: get_summary_def db_long_def)
  from summarization_failure_leaves_session_unchanged [OF c, of Failed 31 "''- plan''" "[]"] e g c
  show ?thesis by simp
qed

subsection \<open>The chunker\<close>

lemma isspace_nl: "isspace nl"
  by (simp add: isspace_def nl_def)

lemma lstrip_stripped: "stripped s \<Longrightarrow> lstrip s = s"
  by (cases s) (simp_all add: stripped_def lstrip_def)

lemma rstrip_last: "s \<noteq> [] \<Longrightarrow> \<not> isspace (last s) \<Longrightarrow> rstrip s = s"
  by (cases "rev s") (simp_all add: rstrip_def last_rev [symmetric] del: last_rev)

lemma strip_stripped: "stripped s \<Longrightarrow> strip s = s"
  by (simp add: strip_def lstrip_stripped rstrip_last stripped_def)

lemma stripped_strip: "strip s \<noteq> [] \<Longrightarrow> stripped (strip s)"
proof -
  assume ne: "strip s \<noteq> []"
  let ?l = "dropWhile isspace s"
  have s: "strip s = rev (dropWhile isspace (rev ?l))"
    by (simp add: strip_def lstrip_def rstrip_def)
  have lne: "?l \<noteq> []"
  proof
    assume a: "?l = []"
    have "strip s = []" unfolding s a by simp
    with ne show False by simp
  qed
  have hl: "\<not> isspace (hd ?l)" using lne by (rule hd_dropWhile)
  let ?r = "dropWhile isspace (rev ?l)"
  have rne: "?r \<noteq> []"
    using ne unfolding s rev_is_Nil_conv .
  have hr: "\<not> isspace (hd ?r)" using rne by (rule hd_dropWhile)
  have last_strip: "last (strip s) = hd ?r"
    using rne by (simp add: s last_rev)
  obtain us where us: "rev ?l = takeWhile isspace (rev ?l) @ ?r" by simp
  have "?l = rev ?r @ rev (takeWhile isspace (rev ?l))"
    by (metis rev_append rev_rev_ident takeWhile_dropWhile_id)
  then have "hd ?l = hd (rev ?r)"
    using rne by (metis hd_append2 rev_is_Nil_conv)
  then have "hd (strip s) = hd ?l" by (simp add: s)
  then show ?thesis
    using ne hl hr last_strip by (simp add: stripped_def)
qed

lemma set_strip: "set (strip s) \<subseteq> set s"
proof -
  have "set (strip s) \<subseteq> set (dropWhile isspace s)"
    using set_dropWhileD [of _ isspace "rev (dropWhile isspace s)"]
    by (auto simp add: strip_def lstrip_def rstrip_def)
  then show ?thesis
    using set_dropWhileD [of _ isspace s] by auto
qed

lemma strip_join2: "stripped a \<Longrightarrow> stripped b \<Longrightarrow> strip (a @ [nl] @ b) = a @ [nl] @ b"
  by (rule strip_stripped) (simp add: stripped_def)

lemma strip_nl_front: "stripped b \<Longrightarrow> strip ([] @ [nl] @ b) = b"
  using isspace_nl
  by (simp add: strip_def lstrip_def) (metis lstrip_def lstrip_stripped strip_def strip_stripped)

lemma split_on_nonempty: "split_on d s \<noteq> []"
  by (induction s) (simp_all add: Let_def)

lemma split_on_no_sep: "d \<notin> set s \<Longrightarrow> split_on d s = [s]"
  by (induction s) (auto simp add: Let_def)

lemma split_on_append: "d \<notin> set x \<Longrightarrow> split_on d (x @ d # rest) = x # split_on d rest"
  by (induction x) (auto simp add: Let_def)

lemma split_on_pieces: "x \<in> set (split_on d s) \<Longrightarrow> d \<notin> set x"
proof (induction s arbitrary: x)
  case Nil
  then show ?case by simp
next
  case (Cons c s)
  show ?case
  proof (cases "c = d")
    case True
    with Cons show ?thesis by auto
  next
    case False
    obtain w ws where r: "split_on d s = w # ws"
      using split_on_nonempty [of d s] by (cases "split_on d s") auto
    with Cons.prems False have "x = c # w \<or> x \<in> set ws" by (simp add: Let_def)
    then show ?thesis
      using Cons.IH [of w] Cons.IH [of x] r False by auto
  qed
qed

lemma join_nonempty: "xs \<noteq> [] \<Longrightarrow> \<forall>x\<in>set xs. x \<noteq> [] \<Longrightarrow> join sep xs \<noteq> []"
  by (induction sep xs rule: join.induct) simp_all

lemma join_Cons: "xs \<noteq> [] \<Longrightarrow> join sep (x # xs) = x @ sep @ join sep xs"
  by (cases xs) simp_all

lemma join_append:
  "xs \<noteq> [] \<Longrightarrow> ys \<noteq> [] \<Longrightarrow> join sep (xs @ ys) = join sep xs @ sep @ join sep ys"
proof (induction sep xs rule: join.induct)
  case (1 sep)
  then show ?case by simp
next
  case (2 sep x)
  then show ?case by (simp add: join_Cons)
next
  case (3 sep x y ys')
  then show ?case by simp
qed

lemma join_snoc: "xs \<noteq> [] \<Longrightarrow> join sep (xs @ [p]) = join sep xs @ sep @ p"
  by (simp add: join_append)

lemma split_join:
  "g \<noteq> [] \<Longrightarrow> \<forall>x\<in>set g. nl \<notin> set x \<Longrightarrow> split_on nl (join [nl] g) = g"
proof (induction "[nl]" g rule: join.induct)
  case 1
  then show ?case by simp
next
  case (2 x)
  then show ?case by (simp add: split_on_no_sep)
next
  case (3 x y ys)
  then show ?case by (simp add: split_on_append)
qed

lemma join_concat:
  "\<forall>g\<in>set gs. g \<noteq> [] \<Longrightarrow> join sep (map (join sep) gs) = join sep (concat gs)"
proof (induction gs)
  case Nil
  then show ?case by simp
next
  case (Cons g gs)
  show ?case
  proof (cases "gs = []")
    case True
    then show ?thesis by simp
  next
    case False
    then have c: "concat gs \<noteq> []" using Cons.prems by (cases gs) auto
    have g: "g \<noteq> []" using Cons.prems by simp
    show ?thesis
      using Cons False c g by (simp add: join_Cons join_append)
  qed
qed

lemma stripped_join:
  "g \<noteq> [] \<Longrightarrow> \<forall>x\<in>set g. stripped x \<Longrightarrow> stripped (join [nl] g)"
proof (induction "[nl]" g rule: join.induct)
  case 1
  then show ?case by simp
next
  case (2 x)
  then show ?case by simp
next
  case (3 x y ys)
  then have "stripped (join [nl] (y # ys))" by simp
  with 3 show ?case by (simp add: stripped_def)
qed

lemma paragraphs_stripped: "p \<in> set (paragraphs t) \<Longrightarrow> stripped p \<and> nl \<notin> set p"
proof -
  assume "p \<in> set (paragraphs t)"
  then obtain q where q: "q \<in> set (split_on nl t)" "strip q \<noteq> []" "p = strip q"
    by (auto simp add: paragraphs_def)
  have "nl \<notin> set q" using q(1) by (rule split_on_pieces)
  then have "nl \<notin> set p" using set_strip [of q] q(3) by auto
  then show ?thesis using stripped_strip [OF q(2)] q(3) by simp
qed

lemma accumulate_step:
  assumes "stripped cur" and "stripped p"
  shows "accumulate m (p # ps) (chunks, cur) =
           accumulate m ps (if int (length (cur @ [nl] @ p)) \<le> m
                            then (chunks, cur @ [nl] @ p) else (chunks @ [cur], p))"
proof -
  have "cur \<noteq> []" using assms(1) by (simp add: stripped_def)
  moreover have "int (length cur) + int (length p) + 1 = int (length (cur @ [nl] @ p))" by simp
  ultimately show ?thesis
    using strip_join2 [OF assms] by (simp del: append.simps append_assoc)
qed

lemma accumulate_first:
  assumes "stripped p"
  shows "accumulate m (p # ps) (chunks, []) = accumulate m ps (chunks, p)"
  using strip_nl_front [OF assms] by simp

lemma greedy_first: "greedy m [] (p # ps) = greedy m [p] ps"
  by simp

lemma accumulate_greedy:
  assumes "\<forall>p\<in>set ps. stripped p" and "\<forall>b\<in>set buf. stripped b"
  shows "(case accumulate m ps (chunks, join [nl] buf) of
            (cs, cur) \<Rightarrow> (if cur \<noteq> [] then cs @ [cur] else cs))
         = chunks @ map (join [nl]) (greedy m buf ps)"
  using assms
proof (induction ps arbitrary: chunks buf)
  case Nil
  have "buf \<noteq> [] \<Longrightarrow> join [nl] buf \<noteq> []"
    using Nil(2) by (intro join_nonempty) (auto simp add: stripped_def)
  then show ?case by auto
next
  case (Cons p ps)
  have sp: "stripped p" and sps: "\<forall>p\<in>set ps. stripped p" using Cons.prems(1) by simp_all
  show ?case
  proof (cases "buf = []")
    case True
    have "(case accumulate m (p # ps) (chunks, join [nl] buf) of
            (cs, cur) \<Rightarrow> (if cur \<noteq> [] then cs @ [cur] else cs))
          = (case accumulate m ps (chunks, join [nl] [p]) of
            (cs, cur) \<Rightarrow> (if cur \<noteq> [] then cs @ [cur] else cs))"
      using accumulate_first [OF sp, of m ps chunks] True by simp
    also have "\<dots> = chunks @ map (join [nl]) (greedy m [p] ps)"
      using sps sp by (intro Cons.IH) simp_all
    finally show ?thesis using True by simp
  next
    case False
    have sb: "stripped (join [nl] buf)"
      using False Cons.prems(2) by (rule stripped_join)
    have j: "join [nl] (buf @ [p]) = join [nl] buf @ [nl] @ p"
      using False by (rule join_snoc)
    show ?thesis
    proof (cases "int (length (join [nl] (buf @ [p]))) \<le> m")
      case True
      have "(case accumulate m (p # ps) (chunks, join [nl] buf) of
            (cs, cur) \<Rightarrow> (if cur \<noteq> [] then cs @ [cur] else cs))
          = (case accumulate m ps (chunks, join [nl] (buf @ [p])) of
            (cs, cur) \<Rightarrow> (if cur \<noteq> [] then cs @ [cur] else cs))"
        using True unfolding accumulate_step [OF sb sp] j by simp
      also have "\<dots> = chunks @ map (join [nl]) (greedy m (buf @ [p]) ps)"
        using sps sp Cons.prems(2) by (intro Cons.IH) auto
      finally show ?thesis using True by simp
    next
      case F: False
      have "(case accumulate m (p # ps) (chunks, join [nl] buf) of
            (cs, cur) \<Rightarrow> (if cur \<noteq> [] then cs @ [cur] else cs))
          = (case accumulate m ps (chunks @ [join [nl] buf], join [nl] [p]) of
            (cs, cur) \<Rightarrow> (if cur \<noteq> [] then cs @ [cur] else cs))"
        using F unfolding accumulate_step [OF sb sp] j by simp
      also have "\<dots> = (chunks @ [join [nl] buf]) @ map (join [nl]) (greedy m [p] ps)"
        using sps sp by (intro Cons.IH) simp_all
      finally show ?thesis using F False by simp
    qed
  qed
qed

lemma accumulated_greedy:
  "\<forall>p\<in>set ps. stripped p \<Longrightarrow> accumulated m ps = map (join [nl]) (greedy m [] ps)"
  using accumulate_greedy [of ps "[]" m "[]"] by (simp add: accumulated_def)

lemma greedy_groups:
  "concat (greedy m buf ps) = buf @ ps \<and> (\<forall>g\<in>set (greedy m buf ps). g \<noteq> [])"
  by (induction m buf ps rule: greedy.induct) auto

lemma greedy_oversized_start:
  "m < int (length p) \<Longrightarrow> greedy m [p] ps = [p] # greedy m [] ps"
proof (cases ps)
  case Nil
  then show ?thesis by simp
next
  case (Cons y ys)
  assume "m < int (length p)"
  then have "\<not> int (length (join [nl] ([p] @ [y]))) \<le> m" by simp
  then show ?thesis using Cons by simp
qed

lemma length_join_snoc_ge: "length p \<le> length (join sep (buf @ [p]))"
  by (cases "buf = []") (simp_all add: join_snoc)

lemma greedy_oversized:
  assumes "m < int (length p)"
  shows "greedy m buf (xs @ p # ys) = greedy m buf xs @ [p] # greedy m [] ys"
proof (induction xs arbitrary: buf)
  case Nil
  have "\<not> int (length (join [nl] (buf @ [p]))) \<le> m"
    using assms length_join_snoc_ge [of p "[nl]" buf] by linarith
  then show ?case
    using greedy_oversized_start [OF assms, of ys] by simp
next
  case (Cons x xs)
  then show ?case by simp
qed

lemma paragraphs_all_stripped: "\<forall>p\<in>set (paragraphs t). stripped p"
  using paragraphs_stripped by blast

lemma chunk_text_no_overlap: "chunk_text t m 0 = accumulated m (paragraphs t)"
  by (simp add: chunk_text_def add_overlap_def)

text \<open>
  C3. For every text, the chunks before the overlap are the greedy accumulation of
  the paragraphs (the stripped non-empty lines), as the specification words it on
  buffers of whole paragraphs. One step of the loop, on a non-empty buffer, joins
  the paragraph by a newline exactly when the joined length does not exceed
  \<open>max_chars\<close>, and otherwise emits the buffer and starts a new one with the
  paragraph. A paragraph longer than \<open>max_chars\<close> is a chunk of its own, between
  the chunks of the paragraphs before it and those of the paragraphs after it. The
  empty text gives no chunk.
\<close>

theorem chunk_text_greedy:
  "chunk_text t m 0 = map (join [nl]) (greedy m [] (paragraphs t))
   \<and> chunk_text t m overlap = add_overlap overlap (map (join [nl]) (greedy m [] (paragraphs t)))
   \<and> (\<forall>p\<in>set (paragraphs t). stripped p \<and> nl \<notin> set p)
   \<and> (\<forall>chunks cur p ps. stripped cur \<and> stripped p \<longrightarrow>
         accumulate m (p # ps) (chunks, cur) =
           accumulate m ps (if int (length (cur @ [nl] @ p)) \<le> m
                            then (chunks, cur @ [nl] @ p) else (chunks @ [cur], p)))
   \<and> (\<forall>xs p ys. paragraphs t = xs @ p # ys \<and> m < int (length p) \<longrightarrow>
         chunk_text t m 0 = accumulated m xs @ [p] @ accumulated m ys)
   \<and> chunk_text [] m overlap = []"
proof -
  have a: "accumulated m (paragraphs t) = map (join [nl]) (greedy m [] (paragraphs t))"
    using paragraphs_all_stripped by (rule accumulated_greedy)
  have b: "chunk_text t m 0 = accumulated m xs @ [p] @ accumulated m ys"
    if "paragraphs t = xs @ p # ys" and "m < int (length p)" for xs p ys
  proof -
    have s: "\<forall>q\<in>set (xs @ p # ys). stripped q"
      using paragraphs_all_stripped [of t] that(1) by simp
    have "accumulated m xs = map (join [nl]) (greedy m [] xs)"
      using s by (intro accumulated_greedy) simp
    moreover have "accumulated m ys = map (join [nl]) (greedy m [] ys)"
      using s by (intro accumulated_greedy) simp
    ultimately show ?thesis
      using a that by (simp add: chunk_text_no_overlap greedy_oversized)
  qed
  have c: "chunk_text [] m overlap = []"
    by (simp add: chunk_text_def paragraphs_def strip_def lstrip_def rstrip_def
          accumulated_def add_overlap_def)
  have d: "chunk_text t m overlap = add_overlap overlap (map (join [nl]) (greedy m [] (paragraphs t)))"
    by (simp only: chunk_text_def a)
  have e: "chunk_text t m 0 = map (join [nl]) (greedy m [] (paragraphs t))"
    by (simp only: chunk_text_no_overlap a)
  show ?thesis
    using b c d e paragraphs_stripped [of _ t] accumulate_step [of _ _ m] by blast
qed

theorem chunk_text_greedy_witness:
  "paragraphs text_oversized = [''ab''] @ ''abcdefgh'' # [''cd'']
   \<and> (5::int) < int (length ''abcdefgh'')
   \<and> chunk_text text_oversized 5 0 = [''ab'', ''abcdefgh'', ''cd'']
   \<and> stripped ''ab'' \<and> stripped ''cd''
   \<and> accumulate 5 [''cd''] ([], ''ab'') = ([], ''ab'' @ [nl] @ ''cd'')"
proof -
  have p: "paragraphs text_oversized = [''ab''] @ ''abcdefgh'' # [''cd'']"
    by code_simp
  have l: "(5::int) < int (length ''abcdefgh'')" by simp
  have s: "stripped ''ab''" "stripped ''cd''"
    by (simp_all add: stripped_def isspace_def)
  have a: "accumulated 5 [''ab''] = [''ab'']" "accumulated 5 [''cd''] = [''cd'']"
    by code_simp+
  have t: "chunk_text text_oversized 5 0
             = accumulated 5 [''ab''] @ [''abcdefgh''] @ accumulated 5 [''cd'']"
    using chunk_text_greedy [of text_oversized 5 0] p l by blast
  have st: "accumulate 5 (''cd'' # []) ([], ''ab'') =
              accumulate 5 [] (if int (length (''ab'' @ [nl] @ ''cd'')) \<le> 5
                               then ([], ''ab'' @ [nl] @ ''cd'') else ([] @ [''ab''], ''cd''))"
    using chunk_text_greedy [of text_oversized 5 0] s by blast
  have st': "accumulate 5 [''cd''] ([], ''ab'') = ([], ''ab'' @ [nl] @ ''cd'')"
    unfolding st by simp
  show ?thesis
    using p l s st' by (simp add: t a)
qed

text \<open>
  C4. For every text, the chunks before the overlap, each split at newlines and
  concatenated in order, are the paragraphs of the text; with overlap 0 the output
  chunks joined by newlines are the paragraphs joined by newlines.
\<close>

theorem chunk_text_reconstructs_paragraphs:
  "chunk_text t m overlap = add_overlap overlap (accumulated m (paragraphs t))
   \<and> concat (map (split_on nl) (accumulated m (paragraphs t))) = paragraphs t
   \<and> concat (map (split_on nl) (chunk_text t m 0)) = paragraphs t
   \<and> join [nl] (chunk_text t m 0) = join [nl] (paragraphs t)"
proof -
  let ?G = "greedy m [] (paragraphs t)"
  have a: "accumulated m (paragraphs t) = map (join [nl]) ?G"
    using paragraphs_all_stripped by (rule accumulated_greedy)
  have c: "concat ?G = paragraphs t" and ne: "\<forall>g\<in>set ?G. g \<noteq> []"
    using greedy_groups [of m "[]" "paragraphs t"] by simp_all
  have el: "\<forall>g\<in>set ?G. \<forall>x\<in>set g. nl \<notin> set x"
  proof (intro ballI)
    fix g x assume "g \<in> set ?G" "x \<in> set g"
    then have "x \<in> set (concat ?G)" by auto
    then show "nl \<notin> set x" using paragraphs_stripped [of x t] by (simp add: c)
  qed
  have "map (split_on nl) (map (join [nl]) ?G) = ?G"
    using ne el by (simp add: map_idI split_join)
  then have s: "concat (map (split_on nl) (accumulated m (paragraphs t))) = paragraphs t"
    by (simp only: a c)
  have j: "join [nl] (accumulated m (paragraphs t)) = join [nl] (paragraphs t)"
    using join_concat [OF ne, of "[nl]"] by (simp only: a c)
  show ?thesis
    using s j by (simp add: chunk_text_no_overlap) (simp add: chunk_text_def)
qed

lemma overlap_prefix_lastn:
  "0 < ov \<Longrightarrow> (if int (length prev) > ov then slice_from (- ov) prev else prev) = lastn (nat ov) prev"
  by (auto simp add: slice_from_def lastn_def nat_diff_distrib')

lemma lastn_last: "xs \<noteq> [] \<Longrightarrow> 0 < n \<Longrightarrow> lastn n xs \<noteq> [] \<and> last (lastn n xs) = last xs"
proof -
  assume "xs \<noteq> []" and "0 < n"
  then have "length xs - n < length xs" by (cases xs) simp_all
  then show ?thesis by (simp add: lastn_def)
qed

lemma strip_overlap:
  assumes "pre \<noteq> []" and "\<not> isspace (last pre)" and "stripped ch"
  shows "strip (pre @ [nl] @ ch) = lstrip pre @ [nl] @ ch \<and> lstrip pre \<noteq> []"
proof -
  have m: "last pre \<in> set pre" using assms(1) by simp
  have l: "lstrip (pre @ [nl] @ ch) = lstrip pre @ [nl] @ ch"
    unfolding lstrip_def using m assms(2) by (rule dropWhile_append1)
  have ne: "lstrip pre \<noteq> []"
    unfolding lstrip_def using m assms(2) by (auto simp add: dropWhile_eq_Nil_conv)
  have "ch \<noteq> []" "\<not> isspace (last ch)" using assms(3) by (simp_all add: stripped_def)
  then have "rstrip (lstrip pre @ [nl] @ ch) = lstrip pre @ [nl] @ ch"
    by (intro rstrip_last) simp_all
  then have "strip (pre @ [nl] @ ch) = lstrip pre @ [nl] @ ch"
    unfolding strip_def l .
  then show ?thesis
    using ne by simp
qed

lemma accumulated_stripped:
  assumes "\<forall>p\<in>set ps. stripped p"
  shows "\<forall>c\<in>set (accumulated m ps). stripped c"
proof
  fix c assume "c \<in> set (accumulated m ps)"
  then obtain g where g: "g \<in> set (greedy m [] ps)" "c = join [nl] g"
    using accumulated_greedy [OF assms, of m] by auto
  have ne: "g \<noteq> []" using greedy_groups [of m "[]" ps] g(1) by blast
  have "set g \<subseteq> set (concat (greedy m [] ps))" using g(1) by auto
  then have "\<forall>x\<in>set g. stripped x"
    using assms greedy_groups [of m "[]" ps] by auto
  then show "stripped c"
    using ne g(2) stripped_join by simp
qed

lemma overlapped_at_pos:
  assumes ov: "0 < ov" and i: "0 < i" "i < length chunks"
    and st: "\<forall>c\<in>set chunks. stripped c"
  shows "overlapped_at ov chunks i = lstrip (lastn (nat ov) (chunks ! (i - 1))) @ [nl] @ chunks ! i
         \<and> lstrip (lastn (nat ov) (chunks ! (i - 1))) \<noteq> []"
proof -
  let ?prev = "chunks ! (i - 1)" and ?ch = "chunks ! i"
  have sp: "stripped ?prev" and sc: "stripped ?ch"
    using st i by simp_all
  have l: "lastn (nat ov) ?prev \<noteq> [] \<and> last (lastn (nat ov) ?prev) = last ?prev"
    using sp ov by (intro lastn_last) (simp_all add: stripped_def)
  then have "\<not> isspace (last (lastn (nat ov) ?prev))"
    using sp by (simp add: stripped_def)
  with l have "strip (lastn (nat ov) ?prev @ [nl] @ ?ch) = lstrip (lastn (nat ov) ?prev) @ [nl] @ ?ch
       \<and> lstrip (lastn (nat ov) ?prev) \<noteq> []"
    using sc by (intro strip_overlap) simp_all
  note k = this
  have "overlapped_at ov chunks i =
          strip ((if int (length ?prev) > ov then slice_from (- ov) ?prev else ?prev) @ [nl] @ ?ch)"
    using i(1) by (simp add: overlapped_at_def Let_def)
  also have "\<dots> = strip (lastn (nat ov) ?prev @ [nl] @ ?ch)"
    by (simp only: overlap_prefix_lastn [OF ov])
  finally show ?thesis
    using k by simp
qed

lemma lstrip_no_space: "s \<noteq> [] \<Longrightarrow> \<not> isspace (hd s) \<Longrightarrow> lstrip s = s"
  by (cases s) (simp_all add: lstrip_def)

text \<open>
  C2, amended. When the accumulation gives more than one chunk and the overlap is
  positive, every output chunk from the second on is the last \<open>overlap\<close> characters
  of the previous chunk before the overlap (all of it when it is shorter), with
  leading whitespace removed, then a newline, then the chunk's own content before
  the overlap. What remains of the prefix is never empty, and where the overlap
  window does not begin with whitespace the prefix is the window itself. The first
  chunk and the number of chunks are unchanged.
\<close>

theorem chunk_text_overlap_prefix:
  assumes "0 < overlap" and "1 < length (chunk_text t m 0)"
    and "0 < i" and "i < length (chunk_text t m 0)"
  shows "chunk_text t m overlap ! i =
           lstrip (lastn (nat overlap) (chunk_text t m 0 ! (i - 1))) @ [nl] @ chunk_text t m 0 ! i
    \<and> lstrip (lastn (nat overlap) (chunk_text t m 0 ! (i - 1))) \<noteq> []
    \<and> (\<not> isspace (hd (lastn (nat overlap) (chunk_text t m 0 ! (i - 1)))) \<longrightarrow>
          chunk_text t m overlap ! i =
            lastn (nat overlap) (chunk_text t m 0 ! (i - 1)) @ [nl] @ chunk_text t m 0 ! i)
    \<and> length (chunk_text t m overlap) = length (chunk_text t m 0)
    \<and> chunk_text t m overlap ! 0 = chunk_text t m 0 ! 0"
proof -
  let ?pre = "accumulated m (paragraphs t)"
  have pre: "chunk_text t m 0 = ?pre" by (rule chunk_text_no_overlap)
  have st: "\<forall>c\<in>set ?pre. stripped c"
    using paragraphs_all_stripped by (rule accumulated_stripped)
  have len: "1 < length ?pre" "i < length ?pre" using assms(2,4) by (simp_all add: pre)
  have ct: "chunk_text t m overlap = map (overlapped_at overlap ?pre) [0 ..< length ?pre]"
    using assms(1) len(1) by (simp add: chunk_text_def add_overlap_def)
  have ati: "chunk_text t m overlap ! i = overlapped_at overlap ?pre i"
    using len(2) by (simp add: ct)
  have len0: "0 < length ?pre" using len(1) by linarith
  have at0: "chunk_text t m overlap ! 0 = ?pre ! 0"
    using len0 by (simp add: ct overlapped_at_def)
  note o = overlapped_at_pos [OF assms(1) assms(3) len(2) st]
  have ns: "lstrip (lastn (nat overlap) (?pre ! (i - 1))) = lastn (nat overlap) (?pre ! (i - 1))"
    if "\<not> isspace (hd (lastn (nat overlap) (?pre ! (i - 1))))"
    using that o by (intro lstrip_no_space) (auto simp add: lstrip_def)
  show ?thesis
    unfolding pre using o ati at0 ns by (simp add: ct)
qed

text \<open>
  C2, as stated, fails where the overlap window begins with whitespace: the code
  strips the joined chunk. With \<open>max_chars = 5\<close> and \<open>overlap = 3\<close> the chunks of
  \<open>text_overlap\<close> before the overlap are \<open>ab cd\<close> and \<open>efgh\<close>; the last three
  characters of the first are a space and \<open>cd\<close>, and the second output chunk
  begins with \<open>cd\<close>, not with the space.
\<close>

theorem chunk_text_overlap_counterexample:
  "chunk_text text_overlap 5 0 = [''ab cd'', ''efgh'']
   \<and> chunk_text text_overlap 5 3 = [''ab cd'', ''cd'' @ [nl] @ ''efgh'']
   \<and> lastn 3 (chunk_text text_overlap 5 0 ! 0) = '' cd''
   \<and> chunk_text text_overlap 5 3 ! 1 \<noteq> lastn 3 (chunk_text text_overlap 5 0 ! 0) @ [nl] @ chunk_text text_overlap 5 0 ! 1
   \<and> \<not> prefix (lastn 3 (chunk_text text_overlap 5 0 ! 0)) (chunk_text text_overlap 5 3 ! 1)"
  by code_simp

theorem chunk_text_overlap_prefix_witness:
  "(0::int) < 3 \<and> 1 < length (chunk_text text_overlap 5 0) \<and> (0::nat) < 1
   \<and> chunk_text text_overlap 5 3 ! 1 = ''cd'' @ [nl] @ ''efgh''
   \<and> lstrip (lastn 3 ''ab cd'') = ''cd''
   \<and> length (chunk_text text_overlap 5 3) = 2"
proof -
  have c: "chunk_text text_overlap 5 0 = [''ab cd'', ''efgh'']"
    by code_simp
  have l: "lstrip (lastn 3 ''ab cd'') = ''cd''"
    by code_simp
  from chunk_text_overlap_prefix [of 3 text_overlap 5 1]
  show ?thesis
    by (simp add: c l)
qed

end
